theory Spec2Isabelle
  imports Complex_Main "HOL-Library.Signed_Division"
begin

section \<open>Numbers and arrays of the source language\<close>

text \<open>
  The layout functions of Kando's \<open>math\<close> module compute with JavaScript numbers. The
  model idealises them as real numbers: every arithmetic operation is exact, and the
  values \<open>NaN\<close> and \<open>Infinity\<close> do not exist. An optional number (a parameter that
  may be \<open>undefined\<close>, a property that may be absent) is a \<open>real option\<close>.

  The remainder operator \<open>%\<close> truncates towards zero, so its result has the sign of the
  dividend. The source only ever divides angles by 360.
\<close>

definition trunc :: "real \<Rightarrow> int" where
  "trunc x = (if 0 \<le> x then \<lfloor>x\<rfloor> else \<lceil>x\<rceil>)"

definition js_rem :: "real \<Rightarrow> real \<Rightarrow> real" where
  "js_rem x y = x - y * of_int (trunc (x / y))"

text \<open>
  A JavaScript array may have holes, and an assignment beyond its end extends it. An
  array of numbers is a list of optional numbers, \<open>None\<close> being a hole; reading a hole or
  reading out of range gives \<open>undefined\<close>, again \<open>None\<close>.
\<close>

definition js_get :: "'a option list \<Rightarrow> nat \<Rightarrow> 'a option" where
  "js_get xs i = (if i < length xs then xs ! i else None)"

definition js_set :: "'a option list \<Rightarrow> nat \<Rightarrow> 'a \<Rightarrow> 'a option list" where
  "js_set xs i v =
     (if i < length xs then xs[i := Some v]
      else xs @ replicate (i - length xs) None @ [Some v])"

section \<open>computeItemAngles\<close>

subsection \<open>Distributing the items of one wedge\<close>

text \<open>
  The inner \<open>while (index != wedgeEndIndex)\<close> loop. Nothing in the loop itself bounds
  the number of iterations, so the model is a partial function: \<open>None\<close> means that the
  loop does not return.
\<close>

partial_function (option) wedgeWhile ::
  "nat \<Rightarrow> nat \<Rightarrow> real \<Rightarrow> real \<Rightarrow> real option \<Rightarrow> nat \<Rightarrow> nat \<Rightarrow> bool \<Rightarrow> real option list
     \<Rightarrow> real option list option" where
  "wedgeWhile n wedgeEndIndex wedgeBeginAngle wedgeItemGap parentAngle
       index count parentGapRequired itemAngles =
     (if index \<noteq> wedgeEndIndex then
        (let itemAngle = wedgeBeginAngle + wedgeItemGap * real count;
             skip = (parentGapRequired \<and>
                     (case parentAngle of
                        None \<Rightarrow> False
                      | Some p \<Rightarrow> itemAngle + wedgeItemGap / 2 - p > 0));
             count1 = (if skip then count + 1 else count);
             itemAngle1 = (if skip then wedgeBeginAngle + wedgeItemGap * real count1
                           else itemAngle);
             parentGapRequired1 = (if skip then False else parentGapRequired)
         in wedgeWhile n wedgeEndIndex wedgeBeginAngle wedgeItemGap parentAngle
              ((index + 1) mod n) (count1 + 1) parentGapRequired1
              (js_set itemAngles index (js_rem itemAngle1 360)))
      else Some itemAngles)"

declare wedgeWhile.simps [code]

subsection \<open>The angle of the first item when nothing is fixed\<close>

text \<open>
  The \<open>for\<close> loop over the \<open>N\<close> candidate directions; its state is the pair
  \<open>(minAngleDiff, firstAngle)\<close>.
\<close>

function firstAngleLoop :: "nat \<Rightarrow> real \<Rightarrow> real \<Rightarrow> nat \<Rightarrow> real \<times> real \<Rightarrow> real \<times> real" where
  "firstAngleLoop n parentAngle wedgeSize i st =
     (if i < n then
        (let ang = js_rem (parentAngle + (real i + 1) * wedgeSize) 360;
             angleDiff = min ang (360 - ang)
         in firstAngleLoop n parentAngle wedgeSize (Suc i)
              (if angleDiff < fst st then (angleDiff, js_rem (ang + 360) 360) else st))
      else st)"
  by pat_completeness auto
termination
  by (relation "measure (\<lambda>(n, parentAngle, wedgeSize, i, st). n - i)") auto

declare firstAngleLoop.simps [simp del]

definition chooseFirstAngle :: "nat \<Rightarrow> real option \<Rightarrow> real" where
  "chooseFirstAngle n parentAngle =
     (case parentAngle of
        None \<Rightarrow> 0
      | Some p \<Rightarrow> snd (firstAngleLoop n p (360 / (real n + 1)) 0 (360, 0)))"

subsection \<open>The list of fixed angles\<close>

text \<open>An item is an object with an optional \<open>angle\<close> property.\<close>

type_synonym item = "real option"

record fixed =
  angle :: real
  index :: nat

text \<open>\<open>items.forEach\<close>: the items with a non-negative angle, each with its position.\<close>

fun collectFixed :: "nat \<Rightarrow> item list \<Rightarrow> fixed list" where
  "collectFixed i [] = []"
| "collectFixed i (it # its) =
     (case it of
        None \<Rightarrow> collectFixed (Suc i) its
      | Some a \<Rightarrow>
          if a \<ge> 0 then \<lparr>angle = a, index = i\<rparr> # collectFixed (Suc i) its
          else collectFixed (Suc i) its)"

text \<open>A fixed angle that collides with the parent direction is moved by a tenth of a degree.\<close>

definition nudgeFixed :: "real option \<Rightarrow> fixed list \<Rightarrow> fixed list" where
  "nudgeFixed parentAngle fs =
     (case parentAngle of
        None \<Rightarrow> fs
      | Some p \<Rightarrow>
          map (\<lambda>f. if \<bar>angle f - p\<bar> < 0.0001 then f\<lparr>angle := angle f + 0.1\<rparr> else f) fs)"

definition normalizeFixed :: "fixed list \<Rightarrow> fixed list" where
  "normalizeFixed fs = map (\<lambda>f. f\<lparr>angle := js_rem (angle f) 360\<rparr>) fs"

text \<open>
  The pruning loop compares the entry at \<open>i\<close> with its successor and either deletes the
  successor (staying at \<open>i\<close>) or moves on; the entries before \<open>i\<close> are final.
\<close>

fun pruneFixed :: "fixed list \<Rightarrow> fixed list" where
  "pruneFixed (x # y # rest) =
     (if angle x > angle y then pruneFixed (x # rest) else x # pruneFixed (y # rest))"
| "pruneFixed xs = xs"

definition fixedAnglesOf :: "item list \<Rightarrow> real option \<Rightarrow> fixed list" where
  "fixedAnglesOf items parentAngle =
     pruneFixed (normalizeFixed (nudgeFixed parentAngle (collectFixed 0 items)))"

subsection \<open>The loop over the wedges\<close>

text \<open>
  One iteration of the outer \<open>for\<close> loop. Its state is the parent angle, which the loop
  body may raise by a full turn and which keeps that value in later iterations, and the
  output array.
\<close>

definition processWedge ::
  "nat \<Rightarrow> fixed list \<Rightarrow> nat \<Rightarrow> real option \<times> real option list
     \<Rightarrow> (real option \<times> real option list) option" where
  "processWedge n fixedAngles i st =
     (let wedgeBeginIndex = index (fixedAngles ! i);
          wedgeBeginAngle = angle (fixedAngles ! i);
          wedgeEndIndex = index (fixedAngles ! ((i + 1) mod length fixedAngles));
          wedgeEndAngle0 = angle (fixedAngles ! ((i + 1) mod length fixedAngles));
          itemAngles1 = js_set (snd st) wedgeBeginIndex wedgeBeginAngle;
          wedgeEndAngle = (if wedgeEndAngle0 \<le> wedgeBeginAngle then wedgeEndAngle0 + 360
                           else wedgeEndAngle0);
          wedgeItemCount0 = (int wedgeEndIndex - int wedgeBeginIndex - 1 + int n) smod int n;
          parentAngle1 = (case fst st of
                            None \<Rightarrow> None
                          | Some p \<Rightarrow> Some (if p < wedgeBeginAngle then p + 360 else p));
          parentInWedge = (case parentAngle1 of
                             None \<Rightarrow> False
                           | Some p \<Rightarrow> p > wedgeBeginAngle \<and> p < wedgeEndAngle);
          wedgeItemCount = (if parentInWedge then wedgeItemCount0 + 1 else wedgeItemCount0);
          wedgeItemGap = (wedgeEndAngle - wedgeBeginAngle) / (of_int wedgeItemCount + 1)
      in map_option (Pair parentAngle1)
           (wedgeWhile n wedgeEndIndex wedgeBeginAngle wedgeItemGap parentAngle1
              ((wedgeBeginIndex + 1) mod n) 1 parentInWedge itemAngles1))"

function wedgesLoop ::
  "nat \<Rightarrow> fixed list \<Rightarrow> nat \<Rightarrow> real option \<times> real option list
     \<Rightarrow> (real option \<times> real option list) option" where
  "wedgesLoop n fixedAngles i st =
     (if i < length fixedAngles then
        (case processWedge n fixedAngles i st of
           None \<Rightarrow> None
         | Some st1 \<Rightarrow> wedgesLoop n fixedAngles (Suc i) st1)
      else Some st)"
  by pat_completeness auto
termination
  by (relation "measure (\<lambda>(n, fixedAngles, i, st). length fixedAngles - i)") auto

declare wedgesLoop.simps [simp del]

subsection \<open>The function\<close>

definition computeItemAngles :: "item list \<Rightarrow> real option \<Rightarrow> real option list option" where
  "computeItemAngles items parentAngle =
     (if length items = 0 then Some []
      else
        (let fixedAngles = fixedAnglesOf items parentAngle
         in if length fixedAngles = 0 then
              (let firstAngle = chooseFirstAngle (length items) parentAngle
               in map_option snd
                    (wedgesLoop (length items) [\<lparr>angle = firstAngle, index = 0\<rparr>] 0
                       (parentAngle, js_set [] 0 firstAngle)))
            else map_option snd (wedgesLoop (length items) fixedAngles 0 (parentAngle, []))))"

section \<open>computeItemAnglesDnD\<close>

text \<open>
  \<open>splice(i, 0, x)\<close> inserts \<open>x\<close> before position \<open>i\<close> (at the end when \<open>i\<close> is beyond it);
  \<open>splice(i, 1)\<close> removes the element at position \<open>i\<close>, if there is one. The drop index
  is a position, a natural number; \<open>None\<close> is \<open>undefined\<close>. The result object
  \<open>{itemAngles, dropAngle}\<close> is a record; a \<open>dropAngle\<close> of \<open>None\<close> is \<open>null\<close>.
\<close>

definition splice_insert :: "'a list \<Rightarrow> nat \<Rightarrow> 'a \<Rightarrow> 'a list" where
  "splice_insert xs i x = take i xs @ x # drop i xs"

definition splice_remove :: "'a list \<Rightarrow> nat \<Rightarrow> 'a list" where
  "splice_remove xs i = take i xs @ drop (Suc i) xs"

record dnd_result =
  itemAngles :: "real option list"
  dropAngle :: "real option"

definition computeItemAnglesDnD ::
  "item list \<Rightarrow> real option \<Rightarrow> nat option \<Rightarrow> dnd_result option" where
  "computeItemAnglesDnD items parentAngle dropIndex =
     (let itemsCopy = (case dropIndex of None \<Rightarrow> items | Some d \<Rightarrow> splice_insert items d None)
      in case computeItemAngles itemsCopy parentAngle of
           None \<Rightarrow> None
         | Some angles \<Rightarrow>
             (case dropIndex of
                None \<Rightarrow> Some \<lparr>itemAngles = angles, dropAngle = None\<rparr>
              | Some d \<Rightarrow>
                  Some \<lparr>itemAngles = splice_remove angles d, dropAngle = js_get angles d\<rparr>))"

section \<open>computeItemWedges\<close>






section \<open>computeDropIndex\<close>

definition isAngleBetween :: "real \<Rightarrow> real \<Rightarrow> real \<Rightarrow> bool" where
  "isAngleBetween a s e =
     ((a > s \<and> a \<le> e) \<or> (a - 360 > s \<and> a - 360 \<le> e) \<or> (a + 360 > s \<and> a + 360 \<le> e))"

text \<open>The drop zone of item \<open>i\<close>: half way to its predecessor and to its successor.\<close>

definition dropZone :: "real list \<Rightarrow> nat \<Rightarrow> real \<times> real" where
  "dropZone angles i =
     (let wedgeStart = angles ! ((i + length angles - 1) mod length angles);
          wedgeCenter0 = angles ! i;
          wedgeEnd0 = angles ! ((i + 1) mod length angles);
          wedgeCenter = (if wedgeCenter0 < wedgeStart then wedgeCenter0 + 360 else wedgeCenter0);
          wedgeEnd = (if wedgeEnd0 < wedgeCenter then wedgeEnd0 + 360 else wedgeEnd0)
      in (wedgeCenter - (wedgeCenter - wedgeStart) * 0.5,
          wedgeCenter + (wedgeEnd - wedgeCenter) * 0.5))"

text \<open>
  The loop over the drop zones returns at the first zone that holds the pointer; when no
  zone does, the source function ends without a \<open>return\<close>, and the result is
  \<open>undefined\<close>, here \<open>None\<close>.
\<close>

function dropLoop :: "real list \<Rightarrow> real \<Rightarrow> nat \<Rightarrow> nat option" where
  "dropLoop angles dragAngle i =
     (if i < length angles then
        (if isAngleBetween dragAngle (fst (dropZone angles i)) (snd (dropZone angles i))
         then Some i
         else dropLoop angles dragAngle (Suc i))
      else None)"
  by pat_completeness auto
termination
  by (relation "measure (\<lambda>(angles, dragAngle, i). length angles - i)") auto

declare dropLoop.simps [simp del]

definition computeDropIndex :: "real list \<Rightarrow> real \<Rightarrow> nat option" where
  "computeDropIndex angles dragAngle =
     (if length angles = 0 then Some 0
      else if length angles = 1 then
        Some (if dragAngle - angles ! 0 < 90 \<or> dragAngle - angles ! 0 > 270 then 0 else 1)
      else dropLoop angles dragAngle 0)"

section \<open>Notions of the specification\<close>

text \<open>
  The angular distance between two directions, going either way round the circle.
\<close>

definition angularDistance :: "real \<Rightarrow> real \<Rightarrow> real" where
  "angularDistance p a = min \<bar>p - a\<bar> (360 - \<bar>p - a\<bar>)"







section \<open>Invariants of the loops of computeItemAngles\<close>

text \<open>An entry of the output array that holds an angle of the canonical range.\<close>

definition inRange :: "real option \<Rightarrow> bool" where
  "inRange a = (case a of None \<Rightarrow> False | Some v \<Rightarrow> 0 \<le> v \<and> v < 360)"

text \<open>
  The positions the \<open>while\<close> loop writes when it starts at \<open>i\<close> and stops at \<open>e\<close>: the
  positions from \<open>i\<close> up to \<open>e\<close>, going round the end of the array when \<open>e\<close> is below
  \<open>i\<close>. The loop leaves every other position as it was.
\<close>

definition wedgeWrites :: "nat \<Rightarrow> nat \<Rightarrow> nat \<Rightarrow> nat \<Rightarrow> bool" where
  "wedgeWrites n i e j = (if i \<le> e then i \<le> j \<and> j < e else (i \<le> j \<and> j < n) \<or> j < e)"

definition wedgeWhilePost ::
  "nat \<Rightarrow> nat \<Rightarrow> nat \<Rightarrow> real option list \<Rightarrow> real option list \<Rightarrow> bool" where
  "wedgeWhilePost n i e arr r =
     (length r \<le> max (length arr) n \<and>
      (\<forall>j. if wedgeWrites n i e j then inRange (js_get r j) else js_get r j = js_get arr j))"

text \<open>
  What the wedge loop needs of its list of anchors: there is one, their positions
  increase strictly and lie within the array, and their angles are canonical.
\<close>

definition validFixed :: "nat \<Rightarrow> fixed list \<Rightarrow> bool" where
  "validFixed n F =
     (F \<noteq> [] \<and> sorted_wrt (<) (map index F) \<and>
      list_all (\<lambda>f. index f < n \<and> 0 \<le> angle f \<and> angle f < 360) F)"

text \<open>
  The invariant of the wedge loop before iteration \<open>t\<close>: the array is no longer than the
  item list, every angle in it is canonical, the anchors of the wedges done hold their
  angles, and the positions from the first anchor up to anchor \<open>t\<close> are assigned (all
  positions, once the last wedge is done).
\<close>

definition filled :: "nat \<Rightarrow> fixed list \<Rightarrow> nat \<Rightarrow> nat \<Rightarrow> bool" where
  "filled n F t j =
     (if t < length F then index (F ! 0) \<le> j \<and> j < index (F ! t) else j < n)"

definition wedgesInv :: "nat \<Rightarrow> fixed list \<Rightarrow> nat \<Rightarrow> real option list \<Rightarrow> bool" where
  "wedgesInv n F t arr =
     (length arr \<le> n \<and>
      (\<forall>j. js_get arr j = None \<or> inRange (js_get arr j)) \<and>
      (\<forall>u<t. js_get arr (index (F ! u)) = Some (angle (F ! u))) \<and>
      (\<forall>j. filled n F t j \<longrightarrow> js_get arr j \<noteq> None))"

text \<open>
  The list of anchors the wedge loop runs on: the pruned fixed angles or, when there are
  none, the synthesized anchor of item 0.
\<close>

definition anchorsOf :: "item list \<Rightarrow> real option \<Rightarrow> fixed list" where
  "anchorsOf items p =
     (if fixedAnglesOf items p = []
      then [\<lparr>angle = chooseFirstAngle (length items) p, index = 0\<rparr>]
      else fixedAnglesOf items p)"

text \<open>
  What the collision nudge and the normalization together do to one entry of the list of
  fixed angles.
\<close>

definition canon :: "real option \<Rightarrow> fixed \<Rightarrow> fixed" where
  "canon p f =
     (case p of
        None \<Rightarrow> f\<lparr>angle := js_rem (angle f) 360\<rparr>
      | Some q \<Rightarrow>
          (if \<bar>angle f - q\<bar> < 0.0001 then f\<lparr>angle := js_rem (angle f + 0.1) 360\<rparr>
           else f\<lparr>angle := js_rem (angle f) 360\<rparr>))"

section \<open>Well-formed angle lists and drop zones\<close>




section \<open>Sorted angle lists and the slots between separators\<close>




section \<open>Scenarios\<close>

text \<open>
  C5 (as amended). Three items, item 1 fixed at 45 degrees, no parent: item 1 keeps 45
  degrees, and the single wedge from the anchor round to itself spans the full 360
  degrees, split into three gaps of 120 degrees. Item 2 is therefore at 165 degrees and
  item 0 at 285 degrees.
\<close>

theorem computeItemAngles_one_fixed_of_three:
  "computeItemAngles [None, Some 45, None] None = Some [Some 285, Some 45, Some 165]"
  by code_simp

text \<open>
  C5 as stated gives items 0 and 2 the angles 202.5 and 337.5 degrees; the function does
  not return these.
\<close>

theorem computeItemAngles_one_fixed_of_three_not_spec:
  "computeItemAngles [None, Some 45, None] None \<noteq> Some [Some 202.5, Some 45, Some 337.5]"
  by code_simp

text \<open>
  C8. Four items without fixed angles and a parent at 180 degrees: the items are placed
  at 324, 36, 108 and 252 degrees, none of them at 180 degrees.
\<close>

theorem computeItemAngles_four_items_parent_180:
  "computeItemAngles [None, None, None, None] (Some 180)
     = Some [Some 324, Some 36, Some 108, Some 252]
   \<and> (180::real) \<notin> {324, 36, 108, 252}"
  by code_simp

text \<open>
  C6. With the single item at 200 degrees and the pointer at 10 degrees, the angular
  distance is 170 degrees, not less than 90, and yet the function returns 0: the
  difference \<open>dragAngle - itemAngles[0]\<close> is negative and is compared without being
  brought into the range from 0 to 360.
\<close>

theorem computeDropIndex_single_item_200_pointer_10:
  "computeDropIndex [200] 10 = Some 0 \<and> \<not> angularDistance 10 200 < 90"
  by (simp add: computeDropIndex_def angularDistance_def)


text \<open>
  C7 as stated fails when the reported drop angle is within 0.0001 degrees of the parent
  angle: for two items fixed at 10 and 10.0003 degrees, the parent at 10.00016 degrees and
  drop index 1, the reported drop angle is 10.0001 degrees, and an item inserted there
  with that fixed angle is moved to 10.1001 degrees.
\<close>

theorem computeItemAnglesDnD_roundtrip_fails_near_parent:
  "computeItemAnglesDnD [Some 10, Some 10.0003] (Some 10.00016) (Some 1)
     = Some \<lparr>itemAngles = [Some 10, Some 10.0003], dropAngle = Some 10.0001\<rparr>
   \<and> computeItemAngles (splice_insert [Some 10, Some 10.0003] 1 (Some 10.0001))
        (Some 10.00016)
     = Some [Some 10, Some 10.1001, Some 190.05005]
   \<and> [Some 10, Some 10.1001, Some 190.05005] ! 1 \<noteq> Some (10.0001::real)"
  by code_simp

section \<open>The remainder and the arrays\<close>

lemma js_rem_range: "0 \<le> x \<Longrightarrow> 0 \<le> js_rem x 360 \<and> js_rem x 360 < 360"
proof -
  assume x: "0 \<le> x"
  have a: "of_int \<lfloor>x / 360\<rfloor> \<le> x / 360" by (rule of_int_floor_le)
  have b: "x / 360 < of_int \<lfloor>x / 360\<rfloor> + 1" by linarith
  from x a b show ?thesis by (simp add: js_rem_def trunc_def field_simps)
qed

lemma js_rem_id: "0 \<le> x \<Longrightarrow> x < 360 \<Longrightarrow> js_rem x 360 = x"
proof -
  assume x: "0 \<le> x" "x < 360"
  then have "\<lfloor>x / 360\<rfloor> = 0" by (simp add: floor_eq_iff)
  with x show ?thesis by (simp add: js_rem_def trunc_def)
qed

lemma inRange_js_rem: "0 \<le> x \<Longrightarrow> inRange (Some (js_rem x 360))"
  using js_rem_range [of x] by (simp add: inRange_def)

lemma js_get_js_set: "js_get (js_set xs i v) j = (if j = i then Some v else js_get xs j)"
  by (auto simp: js_get_def js_set_def nth_append)

lemma length_js_set: "length (js_set xs i v) = max (length xs) (Suc i)"
  by (auto simp: js_set_def)

section \<open>The loop over the items of a wedge returns\<close>

lemma wedgeWhile_stop: "wedgeWhile n e b g p e c req arr = Some arr"
  by (subst wedgeWhile.simps) simp

lemma wedgeWhile_step:
  assumes "i \<noteq> e" "0 \<le> b" "0 \<le> g"
  shows "\<exists>c1 req1 v. 0 \<le> v \<and>
           wedgeWhile n e b g p i c req arr =
           wedgeWhile n e b g p ((i + 1) mod n) c1 req1 (js_set arr i (js_rem v 360))"
proof -
  let ?skip = "req \<and> (case p of None \<Rightarrow> False | Some q \<Rightarrow> b + g * real c + g / 2 - q > 0)"
  let ?c1 = "if ?skip then c + 1 else c"
  let ?v = "b + g * real ?c1"
  have "0 \<le> ?v" using assms by simp
  moreover have "wedgeWhile n e b g p i c req arr =
      wedgeWhile n e b g p ((i + 1) mod n) (?c1 + 1) (if ?skip then False else req)
        (js_set arr i (js_rem ?v 360))"
    using assms(1) by (subst wedgeWhile.simps) (simp add: Let_def)
  ultimately show ?thesis by blast
qed

lemma wedgeWhile_up:
  assumes "0 \<le> b" "0 \<le> g"
  shows "i \<le> e \<Longrightarrow> e < n \<Longrightarrow>
         \<exists>r. wedgeWhile n e b g p i c req arr = Some r \<and> wedgeWhilePost n i e arr r"
proof (induction "e - i" arbitrary: i c req arr)
  case 0
  then have "i = e" by simp
  then show ?case
    by (auto simp: wedgeWhile_stop wedgeWhilePost_def wedgeWrites_def)
next
  case (Suc d)
  then have ie: "i < e" "i \<noteq> e" by simp_all
  from wedgeWhile_step [OF ie(2) assms, of n p c req arr]
  obtain c1 req1 v where v: "0 \<le> v"
    and st: "wedgeWhile n e b g p i c req arr =
             wedgeWhile n e b g p ((i + 1) mod n) c1 req1 (js_set arr i (js_rem v 360))"
    by blast
  have m: "(i + 1) mod n = Suc i" using ie Suc.prems by simp
  have "d = e - Suc i" using Suc.hyps(2) by simp
  from Suc.hyps(1) [OF this, of c1 req1 "js_set arr i (js_rem v 360)"] ie Suc.prems
  obtain r where r: "wedgeWhile n e b g p (Suc i) c1 req1 (js_set arr i (js_rem v 360)) = Some r"
    and post: "wedgeWhilePost n (Suc i) e (js_set arr i (js_rem v 360)) r"
    by auto
  have "wedgeWhilePost n i e arr r"
    unfolding wedgeWhilePost_def
  proof (intro conjI allI)
    show "length r \<le> max (length arr) n"
      using post ie Suc.prems by (auto simp: wedgeWhilePost_def length_js_set)
  next
    fix j
    from post have pj: "if wedgeWrites n (Suc i) e j then inRange (js_get r j)
        else js_get r j = js_get (js_set arr i (js_rem v 360)) j"
      by (simp add: wedgeWhilePost_def)
    show "if wedgeWrites n i e j then inRange (js_get r j) else js_get r j = js_get arr j"
      using pj ie inRange_js_rem [OF v]
      by (auto simp: wedgeWrites_def js_get_js_set split: if_splits)
  qed
  with st m r show ?case by simp
qed

lemma wedgeWhile_wrap:
  assumes "0 \<le> b" "0 \<le> g"
  shows "e < i \<Longrightarrow> i < n \<Longrightarrow>
         \<exists>r. wedgeWhile n e b g p i c req arr = Some r \<and> wedgeWhilePost n i e arr r"
proof (induction "n - i" arbitrary: i c req arr)
  case 0
  then show ?case by simp
next
  case (Suc d)
  then have ie: "i \<noteq> e" by simp
  from wedgeWhile_step [OF ie assms, of n p c req arr]
  obtain c1 req1 v where v: "0 \<le> v"
    and st: "wedgeWhile n e b g p i c req arr =
             wedgeWhile n e b g p ((i + 1) mod n) c1 req1 (js_set arr i (js_rem v 360))"
    by blast
  let ?arr1 = "js_set arr i (js_rem v 360)"
  have "\<exists>r. wedgeWhile n e b g p ((i + 1) mod n) c1 req1 ?arr1 = Some r \<and>
            wedgeWhilePost n ((i + 1) mod n) e ?arr1 r"
  proof (cases "Suc i = n")
    case True
    then have "(i + 1) mod n = 0" by simp
    moreover have "e < n" using Suc.prems by simp
    ultimately show ?thesis using wedgeWhile_up [OF assms, of 0 e n p c1 req1 ?arr1] by simp
  next
    case False
    then have m: "(i + 1) mod n = Suc i" using Suc.prems by simp
    have "d = n - Suc i" using Suc.hyps(2) by simp
    from Suc.hyps(1) [OF this, of c1 req1 ?arr1] False Suc.prems m
    show ?thesis by simp
  qed
  then obtain r where r: "wedgeWhile n e b g p ((i + 1) mod n) c1 req1 ?arr1 = Some r"
    and post: "wedgeWhilePost n ((i + 1) mod n) e ?arr1 r"
    by blast
  have "wedgeWhilePost n i e arr r"
    unfolding wedgeWhilePost_def
  proof (intro conjI allI)
    show "length r \<le> max (length arr) n"
      using post Suc.prems by (auto simp: wedgeWhilePost_def length_js_set)
  next
    fix j
    from post have pj: "if wedgeWrites n ((i + 1) mod n) e j then inRange (js_get r j)
        else js_get r j = js_get ?arr1 j"
      by (simp add: wedgeWhilePost_def)
    show "if wedgeWrites n i e j then inRange (js_get r j) else js_get r j = js_get arr j"
    proof (cases "Suc i = n")
      case True
      then have "(i + 1) mod n = 0" by simp
      with pj True Suc.prems inRange_js_rem [OF v] show ?thesis
        by (auto simp: wedgeWrites_def js_get_js_set split: if_splits)
    next
      case False
      then have "(i + 1) mod n = Suc i" using Suc.prems by simp
      with pj False Suc.prems inRange_js_rem [OF v] show ?thesis
        by (auto simp: wedgeWrites_def js_get_js_set split: if_splits)
    qed
  qed
  with st r show ?case by simp
qed

lemma wedgeWhile_returns:
  assumes "0 \<le> b" "0 \<le> g" "i < n" "e < n"
  shows "\<exists>r. wedgeWhile n e b g p i c req arr = Some r \<and> wedgeWhilePost n i e arr r"
proof (cases "i \<le> e")
  case True
  then show ?thesis using wedgeWhile_up [OF assms(1,2) True assms(4)] by simp
next
  case False
  then have "e < i" by simp
  then show ?thesis using wedgeWhile_wrap [OF assms(1,2) _ assms(3)] by simp
qed

section \<open>The loop over the wedges keeps its invariant\<close>

lemma smod_nonneg: "0 \<le> (a::int) \<Longrightarrow> 0 \<le> a smod b"
  by (cases "b = 0") (simp_all add: smod_int_alt_def sgn_if)

lemma mod_length_less: "t < length F \<Longrightarrow> (t + 1) mod length F < length F"
  by (cases F) simp_all

lemma validFixed_nth:
  assumes "validFixed n F" "t < length F"
  shows "index (F ! t) < n" "0 \<le> angle (F ! t)" "angle (F ! t) < 360"
  using assms by (auto simp: validFixed_def list_all_length)

lemma validFixed_less:
  assumes "validFixed n F" "u < v" "v < length F"
  shows "index (F ! u) < index (F ! v)"
  using assms sorted_wrt_nth_less [of "(<)" "map index F" u v]
  by (simp add: validFixed_def)

lemma validFixed_le:
  assumes "validFixed n F" "u \<le> v" "v < length F"
  shows "index (F ! u) \<le> index (F ! v)"
proof (cases "u = v")
  case True then show ?thesis by simp
next
  case False
  with assms validFixed_less [of n F u v] show ?thesis by simp
qed

lemma processWedge_form:
  assumes "validFixed n F" "t < length F"
  shows "\<exists>g p1 piw. 0 \<le> g \<and>
           processWedge n F t st =
             map_option (Pair p1)
               (wedgeWhile n (index (F ! ((t + 1) mod length F))) (angle (F ! t)) g p1
                  ((index (F ! t) + 1) mod n) 1 piw
                  (js_set (snd st) (index (F ! t)) (angle (F ! t))))"
proof -
  let ?b = "index (F ! t)" and ?ba = "angle (F ! t)"
  let ?e = "index (F ! ((t + 1) mod length F))" and ?ea = "angle (F ! ((t + 1) mod length F))"
  let ?ea1 = "if ?ea \<le> ?ba then ?ea + 360 else ?ea"
  let ?cz = "(int ?e - int ?b - 1 + int n) smod int n"
  let ?p1 = "case fst st of None \<Rightarrow> None | Some p \<Rightarrow> Some (if p < ?ba then p + 360 else p)"
  let ?piw = "case ?p1 of None \<Rightarrow> False | Some p \<Rightarrow> p > ?ba \<and> p < ?ea1"
  let ?cnt = "if ?piw then ?cz + 1 else ?cz"
  let ?g = "(?ea1 - ?ba) / (of_int ?cnt + 1)"
  have t1: "(t + 1) mod length F < length F" using assms(2) by (rule mod_length_less)
  have b: "?b < n" "0 \<le> ?ba" "?ba < 360" using validFixed_nth [OF assms] by simp_all
  have e: "0 \<le> ?ea" "?ea < 360" using validFixed_nth [OF assms(1) t1] by simp_all
  have "0 \<le> int ?e - int ?b - 1 + int n" using b(1) by simp
  then have "0 \<le> ?cz" by (rule smod_nonneg)
  then have c: "0 \<le> ?cnt" by simp
  have "0 \<le> ?ea1 - ?ba" using b e by simp
  moreover have "(0::real) \<le> of_int ?cnt + 1" using c by simp
  ultimately have g: "0 \<le> ?g" by (rule divide_nonneg_nonneg)
  have "processWedge n F t st =
          map_option (Pair ?p1) (wedgeWhile n ?e ?ba ?g ?p1 ((?b + 1) mod n) 1 ?piw
             (js_set (snd st) ?b ?ba))"
    by (simp only: processWedge_def Let_def)
  with g show ?thesis by blast
qed

lemma processWedge_inv:
  assumes v: "validFixed n F" and t: "t < length F" and inv: "wedgesInv n F t (snd st)"
  shows "\<exists>st1. processWedge n F t st = Some st1 \<and> wedgesInv n F (Suc t) (snd st1)"
proof -
  let ?b = "index (F ! t)" and ?ba = "angle (F ! t)"
  let ?e = "index (F ! ((t + 1) mod length F))"
  let ?arr = "snd st"
  let ?arr1 = "js_set ?arr ?b ?ba"
  let ?i = "(?b + 1) mod n"
  have t1: "(t + 1) mod length F < length F" using t by (rule mod_length_less)
  have b: "?b < n" "0 \<le> ?ba" "?ba < 360" using validFixed_nth [OF v t] by simp_all
  have e: "?e < n" using validFixed_nth [OF v t1] by simp
  have i: "?i < n" using b(1) by simp
  from processWedge_form [OF v t, of st]
  obtain g p1 piw where g: "0 \<le> g"
    and pw: "processWedge n F t st =
             map_option (Pair p1) (wedgeWhile n ?e ?ba g p1 ?i 1 piw ?arr1)"
    by blast
  from wedgeWhile_returns [OF b(2) g i e, of p1 1 piw ?arr1]
  obtain r where r: "wedgeWhile n ?e ?ba g p1 ?i 1 piw ?arr1 = Some r"
    and post: "wedgeWhilePost n ?i ?e ?arr1 r"
    by blast
  have len: "length r \<le> n"
    using post inv b(1) by (auto simp: wedgeWhilePost_def wedgesInv_def length_js_set)
  have rj: "\<And>j. if wedgeWrites n ?i ?e j then inRange (js_get r j)
            else js_get r j = (if j = ?b then Some ?ba else js_get ?arr j)"
    using post by (simp add: wedgeWhilePost_def js_get_js_set)
  have ba: "inRange (Some ?ba)" using b by (simp add: inRange_def)
  have lastw: "(t + 1) mod length F = 0" if "\<not> Suc t < length F"
  proof -
    from that t have "Suc t = length F" by simp
    then show ?thesis by simp
  qed
  \<comment> \<open>the positions of the wedge, by cases on whether it is the last wedge\<close>
  have writes: "\<And>j. wedgeWrites n ?i ?e j =
      (if Suc t < length F then ?b < j \<and> j < ?e else (?b < j \<and> j < n) \<or> j < ?e)"
  proof -
    fix j
    show "wedgeWrites n ?i ?e j =
      (if Suc t < length F then ?b < j \<and> j < ?e else (?b < j \<and> j < n) \<or> j < ?e)"
    proof (cases "Suc t < length F")
      case True
      then have m: "(t + 1) mod length F = Suc t" by simp
      have "?b < index (F ! Suc t)" using validFixed_less [OF v _ True, of t] by simp
      with m e have "?i = Suc ?b" "Suc ?b \<le> ?e" by simp_all
      with True show ?thesis by (auto simp: wedgeWrites_def)
    next
      case False
      then have m: "(t + 1) mod length F = 0" by (rule lastw)
      have le: "index (F ! 0) \<le> ?b" using validFixed_le [OF v _ t, of 0] by simp
      show ?thesis
      proof (cases "Suc ?b = n")
        case True
        then have "?i = 0" by simp
        with m le True False show ?thesis by (auto simp: wedgeWrites_def)
      next
        case F2: False
        then have "?i = Suc ?b" using b(1) by simp
        with m le False show ?thesis by (auto simp: wedgeWrites_def)
      qed
    qed
  qed
  have "wedgesInv n F (Suc t) r"
    unfolding wedgesInv_def
  proof (intro conjI allI impI)
    show "length r \<le> n" by (rule len)
  next
    fix j
    show "js_get r j = None \<or> inRange (js_get r j)"
      using rj [of j] ba inv by (auto simp: wedgesInv_def split: if_splits)
  next
    fix u assume u: "u < Suc t"
    then have ut: "u \<le> t" by simp
    have le: "index (F ! u) \<le> ?b" using validFixed_le [OF v ut t] .
    have ge: "index (F ! 0) \<le> index (F ! u)"
      using validFixed_le [OF v _ , of 0 u] ut t by simp
    have nw: "\<not> wedgeWrites n ?i ?e (index (F ! u))"
    proof (cases "Suc t < length F")
      case True
      with le show ?thesis using writes [of "index (F ! u)"] by simp
    next
      case False
      then have "(t + 1) mod length F = 0" by (rule lastw)
      with le ge False show ?thesis using writes [of "index (F ! u)"] by simp
    qed
    show "js_get r (index (F ! u)) = Some (angle (F ! u))"
    proof (cases "u = t")
      case True
      with rj [of ?b] nw show ?thesis by simp
    next
      case False
      with ut have ult: "u < t" by simp
      then have "index (F ! u) \<noteq> ?b" using validFixed_less [OF v ult t] by simp
      moreover have "js_get ?arr (index (F ! u)) = Some (angle (F ! u))"
        using inv ult by (simp add: wedgesInv_def)
      ultimately show ?thesis using rj [of "index (F ! u)"] nw by simp
    qed
  next
    fix j assume f: "filled n F (Suc t) j"
    have cover: "wedgeWrites n ?i ?e j \<or> j = ?b \<or> filled n F t j"
    proof (cases "Suc t < length F")
      case True
      then have "(t + 1) mod length F = Suc t" by simp
      with f True t show ?thesis using writes [of j] by (auto simp: filled_def)
    next
      case False
      then have "(t + 1) mod length F = 0" by (rule lastw)
      with f False t show ?thesis using writes [of j] by (auto simp: filled_def)
    qed
    show "js_get r j \<noteq> None"
      using cover rj [of j] inv
      by (auto simp: wedgesInv_def inRange_def split: if_splits option.splits)
  qed
  with pw r show ?thesis by simp
qed

lemma wedgesLoop_inv:
  assumes v: "validFixed n F"
  shows "t \<le> length F \<Longrightarrow> wedgesInv n F t (snd st) \<Longrightarrow>
         \<exists>st1. wedgesLoop n F t st = Some st1 \<and> wedgesInv n F (length F) (snd st1)"
proof (induction "length F - t" arbitrary: t st)
  case 0
  then have "t = length F" by simp
  with "0.prems" show ?case by (simp add: wedgesLoop.simps)
next
  case (Suc d)
  then have t: "t < length F" by simp
  from processWedge_inv [OF v t Suc.prems(2)]
  obtain st1 where p: "processWedge n F t st = Some st1"
    and i1: "wedgesInv n F (Suc t) (snd st1)" by blast
  have "d = length F - Suc t" using Suc.hyps(2) by simp
  from Suc.hyps(1) [OF this _ i1] t
  obtain st2 where "wedgesLoop n F (Suc t) st1 = Some st2"
    and "wedgesInv n F (length F) (snd st2)" by auto
  with p t show ?case by (subst wedgesLoop.simps) simp
qed

section \<open>The anchors are well formed\<close>

lemma js_rem_gt: "- 360 < js_rem x 360"
proof (cases "0 \<le> x")
  case True
  then show ?thesis using js_rem_range [of x] by simp
next
  case False
  have "of_int \<lceil>x / 360\<rceil> < x / 360 + 1" by linarith
  with False show ?thesis by (simp add: js_rem_def trunc_def field_simps)
qed

lemma firstAngleLoop_range:
  "0 \<le> snd st \<Longrightarrow> snd st < 360 \<Longrightarrow>
   0 \<le> snd (firstAngleLoop n q w i st) \<and> snd (firstAngleLoop n q w i st) < 360"
proof (induction n q w i st rule: firstAngleLoop.induct)
  case (1 n q w i st)
  show ?case
  proof (cases "i < n")
    case False
    with "1.prems" show ?thesis by (simp add: firstAngleLoop.simps)
  next
    case True
    let ?ang = "js_rem (q + (real i + 1) * w) 360"
    let ?st1 = "if min ?ang (360 - ?ang) < fst st then (min ?ang (360 - ?ang), js_rem (?ang + 360) 360) else st"
    have "0 \<le> ?ang + 360" using js_rem_gt [of "q + (real i + 1) * w"] by simp
    from js_rem_range [OF this] "1.prems"
    have "0 \<le> snd ?st1" "snd ?st1 < 360" by simp_all
    from "1.IH" [OF True refl refl this] True show ?thesis
      by (subst (1 2) firstAngleLoop.simps) (simp add: Let_def)
  qed
qed

lemma chooseFirstAngle_range: "0 \<le> chooseFirstAngle n p \<and> chooseFirstAngle n p < 360"
  using firstAngleLoop_range [of "(360, 0)"]
  by (simp add: chooseFirstAngle_def split: option.splits)

lemma collectFixed_props:
  "f \<in> set (collectFixed s its) \<Longrightarrow>
   s \<le> index f \<and> index f < s + length its \<and> its ! (index f - s) = Some (angle f) \<and> 0 \<le> angle f"
proof (induction its arbitrary: s)
  case Nil
  then show ?case by simp
next
  case (Cons it its)
  show ?case
  proof (cases "f \<in> set (collectFixed (Suc s) its)")
    case True
    from Cons.IH [OF True] show ?thesis by (simp add: Suc_diff_le)
  next
    case False
    with Cons.prems show ?thesis by (auto split: option.splits if_splits)
  qed
qed

lemma collectFixed_sorted: "sorted_wrt (<) (map index (collectFixed s its))"
proof (induction its arbitrary: s)
  case Nil
  then show ?case by simp
next
  case (Cons it its)
  have "s < index f" if "f \<in> set (collectFixed (Suc s) its)" for f
    using collectFixed_props [OF that] by simp
  with Cons.IH [of "Suc s"] show ?case by (auto split: option.splits)
qed

lemma index_nudgeFixed: "map index (nudgeFixed p fs) = map index fs"
  by (simp add: nudgeFixed_def split: option.splits)

lemma index_normalizeFixed: "map index (normalizeFixed fs) = map index fs"
  by (simp add: normalizeFixed_def)

lemma set_pruneFixed: "set (pruneFixed xs) \<subseteq> set xs"
  by (induction xs rule: pruneFixed.induct) auto

lemma pruneFixed_sorted:
  "sorted_wrt (<) (map index xs) \<Longrightarrow> sorted_wrt (<) (map index (pruneFixed xs))"
proof (induction xs rule: pruneFixed.induct)
  case (1 x y rest)
  show ?case
  proof (cases "angle x > angle y")
    case True
    with 1 show ?thesis by simp
  next
    case False
    have "\<And>z. z \<in> set (pruneFixed (y # rest)) \<Longrightarrow> index x < index z"
      using set_pruneFixed [of "y # rest"] "1.prems" by auto
    with False 1 show ?thesis by simp
  qed
qed simp_all

lemma pruneFixed_Nil: "pruneFixed xs = [] \<longleftrightarrow> xs = []"
  by (induction xs rule: pruneFixed.induct) auto

lemma fixedAnglesOf_mem:
  assumes "f \<in> set (fixedAnglesOf items p)"
  shows "\<exists>a. index f < length items \<and> items ! index f = Some a \<and> 0 \<le> a \<and>
             angle f = js_rem (case p of None \<Rightarrow> a
                                | Some q \<Rightarrow> if \<bar>a - q\<bar> < 0.0001 then a + 0.1 else a) 360"
proof -
  from assms set_pruneFixed
  have "f \<in> set (normalizeFixed (nudgeFixed p (collectFixed 0 items)))"
    unfolding fixedAnglesOf_def by blast
  then obtain c where c: "c \<in> set (collectFixed 0 items)"
    and f: "f = (\<lambda>f. f\<lparr>angle := js_rem (angle f) 360\<rparr>)
                 (case p of None \<Rightarrow> c
                  | Some q \<Rightarrow> if \<bar>angle c - q\<bar> < 0.0001 then c\<lparr>angle := angle c + 0.1\<rparr> else c)"
    by (auto simp: normalizeFixed_def nudgeFixed_def split: option.splits)
  from collectFixed_props [OF c] f show ?thesis
    by (auto split: option.splits)
qed

lemma fixedAnglesOf_valid:
  assumes "fixedAnglesOf items p \<noteq> []"
  shows "validFixed (length items) (fixedAnglesOf items p)"
proof -
  have "sorted_wrt (<) (map index (fixedAnglesOf items p))"
    unfolding fixedAnglesOf_def
    by (intro pruneFixed_sorted)
       (simp add: index_normalizeFixed index_nudgeFixed collectFixed_sorted)
  moreover have "index f < length items \<and> 0 \<le> angle f \<and> angle f < 360"
    if "f \<in> set (fixedAnglesOf items p)" for f
  proof -
    from fixedAnglesOf_mem [OF that] obtain a where a: "index f < length items" "0 \<le> a"
      and f: "angle f = js_rem (case p of None \<Rightarrow> a
                                | Some q \<Rightarrow> if \<bar>a - q\<bar> < 0.0001 then a + 0.1 else a) 360"
      by blast
    have "0 \<le> (case p of None \<Rightarrow> a | Some q \<Rightarrow> if \<bar>a - q\<bar> < 0.0001 then a + 0.1 else a)"
      using a(2) by (simp split: option.splits)
    from js_rem_range [OF this] f a(1) show ?thesis by simp
  qed
  ultimately show ?thesis using assms by (simp add: validFixed_def list_all_iff)
qed

section \<open>Properties of computeItemAngles\<close>

lemma wedgesInv_final:
  assumes "wedgesInv n F (length F) r"
  shows "length r = n" "list_all inRange r"
        "\<And>u. u < length F \<Longrightarrow> js_get r (index (F ! u)) = Some (angle (F ! u))"
proof -
  from assms have len: "length r \<le> n"
    and rng: "\<And>j. js_get r j = None \<or> inRange (js_get r j)"
    and def: "\<And>j. j < n \<Longrightarrow> js_get r j \<noteq> None"
    by (simp_all add: wedgesInv_def filled_def)
  have "n \<le> length r"
  proof (rule ccontr)
    assume "\<not> n \<le> length r"
    then have "length r < n" by simp
    from def [OF this] show False by (simp add: js_get_def)
  qed
  with len show l: "length r = n" by simp
  show "list_all inRange r"
    unfolding list_all_length
  proof (intro allI impI)
    fix j assume j: "j < length r"
    with rng [of j] def [of j] l show "inRange (r ! j)" by (auto simp: js_get_def)
  qed
  show "\<And>u. u < length F \<Longrightarrow> js_get r (index (F ! u)) = Some (angle (F ! u))"
    using assms by (simp add: wedgesInv_def)
qed

lemma computeItemAngles_returns:
  assumes "items \<noteq> []"
  shows "\<exists>r. computeItemAngles items p = Some r \<and>
             wedgesInv (length items) (anchorsOf items p) (length (anchorsOf items p)) r"
proof (cases "fixedAnglesOf items p = []")
  case True
  let ?n = "length items" and ?a = "chooseFirstAngle (length items) p"
  let ?F = "[\<lparr>angle = ?a, index = 0\<rparr>]"
  have F: "anchorsOf items p = ?F" using True by (simp add: anchorsOf_def)
  have v: "validFixed ?n ?F" using assms chooseFirstAngle_range [of ?n p]
    by (simp add: validFixed_def)
  have "wedgesInv ?n ?F 0 (snd (p, js_set [] 0 ?a))"
    using assms chooseFirstAngle_range [of ?n p]
    by (cases items) (auto simp: wedgesInv_def filled_def js_set_def inRange_def js_get_def)
  from wedgesLoop_inv [OF v _ this] obtain st1
    where "wedgesLoop ?n ?F 0 (p, js_set [] 0 ?a) = Some st1"
      and "wedgesInv ?n ?F (length ?F) (snd st1)" by auto
  with True assms F show ?thesis by (simp add: computeItemAngles_def Let_def)
next
  case False
  let ?n = "length items" and ?F = "fixedAnglesOf items p"
  have F: "anchorsOf items p = ?F" using False by (simp add: anchorsOf_def)
  have v: "validFixed ?n ?F" using False by (rule fixedAnglesOf_valid)
  have "wedgesInv ?n ?F 0 (snd (p, []))"
    using False by (simp add: wedgesInv_def filled_def js_get_def)
  from wedgesLoop_inv [OF v _ this] obtain st1
    where "wedgesLoop ?n ?F 0 (p, []) = Some st1"
      and "wedgesInv ?n ?F (length ?F) (snd st1)" by auto
  with False assms F show ?thesis by (simp add: computeItemAngles_def Let_def)
qed


text \<open>
  C10. Every angle that \<open>computeItemAngles\<close> returns is at least 0 and less than 360.
\<close>

theorem computeItemAngles_angles_in_range:
  "\<exists>r. computeItemAngles items parentAngle = Some r \<and> set r \<subseteq> Some ` {0 ..< 360}"
proof (cases "items = []")
  case True
  then show ?thesis by (simp add: computeItemAngles_def)
next
  case False
  from computeItemAngles_returns [OF this, of parentAngle] obtain r
    where r: "computeItemAngles items parentAngle = Some r"
      and inv: "wedgesInv (length items) (anchorsOf items parentAngle)
                  (length (anchorsOf items parentAngle)) r" by blast
  from wedgesInv_final(2) [OF inv] have "set r \<subseteq> Some ` {0 ..< 360}"
    by (auto simp: list_all_iff inRange_def split: option.splits)
  with r show ?thesis by simp
qed

lemma computeItemAngles_anchor_kept:
  assumes "i < length items" and "items ! i = Some a" and "0 \<le> a" and "a < 360"
    and "case parentAngle of None \<Rightarrow> True | Some q \<Rightarrow> \<bar>a - q\<bar> \<ge> 0.0001"
    and "i \<in> index ` set (fixedAnglesOf items parentAngle)"
  shows "\<exists>r. computeItemAngles items parentAngle = Some r \<and> r ! i = Some a"
proof -
  from assms(1) have ne: "items \<noteq> []" by auto
  from assms(6) obtain f where f: "f \<in> set (fixedAnglesOf items parentAngle)" and i: "index f = i"
    by auto
  then have F: "anchorsOf items parentAngle = fixedAnglesOf items parentAngle"
    by (auto simp: anchorsOf_def)
  from fixedAnglesOf_mem [OF f] i assms(2-5) have a: "angle f = a"
    by (auto simp: js_rem_id split: option.splits)
  from f obtain u where u: "u < length (fixedAnglesOf items parentAngle)"
    "fixedAnglesOf items parentAngle ! u = f" by (auto simp: in_set_conv_nth)
  from computeItemAngles_returns [OF ne, of parentAngle] F obtain r
    where r: "computeItemAngles items parentAngle = Some r"
      and inv: "wedgesInv (length items) (fixedAnglesOf items parentAngle)
                  (length (fixedAnglesOf items parentAngle)) r" by auto
  from wedgesInv_final(3) [OF inv u(1)] u(2) i a have "js_get r i = Some a" by simp
  then have "r ! i = Some a" by (simp add: js_get_def split: if_splits)
  with r show ?thesis by simp
qed

text \<open>
  C1. An item whose fixed angle lies in the range from 0 to 360 (360 excluded), is at
  least 0.0001 degrees away from the parent angle (if there is one) and is still in the
  list of fixed angles after the pruning loop, gets exactly its fixed angle.
\<close>

theorem computeItemAngles_fixed_angle_fidelity:
  assumes "i < length items" and "items ! i = Some a" and "0 \<le> a" and "a < 360"
    and "case parentAngle of None \<Rightarrow> True | Some q \<Rightarrow> \<bar>a - q\<bar> \<ge> 0.0001"
    and "i \<in> index ` set (fixedAnglesOf items parentAngle)"
  shows "\<exists>r. computeItemAngles items parentAngle = Some r \<and> r ! i = Some a"
  using assms by (rule computeItemAngles_anchor_kept)

theorem computeItemAngles_fixed_angle_fidelity_witness:
  "\<exists>r. computeItemAngles [Some 100, Some 50, Some 200] (Some 0) = Some r \<and> r ! 2 = Some 200"
proof -
  have "(2::nat) \<in> index ` set (fixedAnglesOf [Some 100, Some 50, Some 200] (Some 0))"
    by (simp add: fixedAnglesOf_def nudgeFixed_def normalizeFixed_def js_rem_def trunc_def)
  then show ?thesis
    using computeItemAngles_fixed_angle_fidelity
      [of 2 "[Some 100, Some 50, Some 200]" 200 "Some 0"]
    by simp
qed

section \<open>The round trip of a drop angle\<close>

lemma computeItemAngles_total: "\<exists>r. computeItemAngles items p = Some r"
proof (cases "items = []")
  case True
  then show ?thesis by (simp add: computeItemAngles_def)
next
  case False
  from computeItemAngles_returns [OF this, of p] show ?thesis by blast
qed

text \<open>
  C9. Without a drop index, \<open>computeItemAnglesDnD\<close> returns the array that
  \<open>computeItemAngles\<close> returns on the same inputs, and no drop angle.
\<close>

theorem computeItemAnglesDnD_no_dropIndex:
  "\<exists>angles. computeItemAngles items parentAngle = Some angles \<and>
     computeItemAnglesDnD items parentAngle None =
       Some \<lparr>itemAngles = angles, dropAngle = None\<rparr>"
proof -
  from computeItemAngles_total [of items parentAngle]
  obtain angles where "computeItemAngles items parentAngle = Some angles" by blast
  then show ?thesis by (simp add: computeItemAnglesDnD_def)
qed

lemma normalize_nudge: "normalizeFixed (nudgeFixed p fs) = map (canon p) fs"
  by (auto simp: normalizeFixed_def nudgeFixed_def canon_def split: option.splits)

lemma collectFixed_append:
  "collectFixed s (xs @ ys) = collectFixed s xs @ collectFixed (s + length xs) ys"
  by (induction xs arbitrary: s) (auto split: option.splits)

lemma pruneFixed_head: "pruneFixed (y # B) = y # tl (pruneFixed (y # B))"
  by (induction B arbitrary: y) auto

lemma pruneFixed_drop:
  "y \<notin> set (pruneFixed (A @ y # B)) \<Longrightarrow> pruneFixed (A @ y # B) = pruneFixed (A @ B)"
proof (induction "length A" arbitrary: A rule: less_induct)
  case less
  show ?case
  proof (cases A)
    case Nil
    with less.prems pruneFixed_head [of y B] show ?thesis
      by (metis append_Nil list.set_intros(1))
  next
    case (Cons x A1)
    note A = this
    show ?thesis
    proof (cases A1)
      case Nil
      with A less.prems pruneFixed_head [of y B] show ?thesis
        by (auto split: if_splits) (metis list.set_intros(1))+
    next
      case (Cons z A2)
      show ?thesis
      proof (cases "angle x > angle z")
        case True
        have "pruneFixed (A @ y # B) = pruneFixed ((x # A2) @ y # B)"
          using A Cons True by simp
        moreover have "pruneFixed (A @ B) = pruneFixed ((x # A2) @ B)"
          using A Cons True by simp
        moreover have "length (x # A2) < length A" using A Cons by simp
        ultimately show ?thesis using less.hyps [of "x # A2"] less.prems by simp
      next
        case False
        have 1: "pruneFixed (A @ y # B) = x # pruneFixed (A1 @ y # B)"
          using A Cons False by simp
        have 2: "pruneFixed (A @ B) = x # pruneFixed (A1 @ B)"
          using A Cons False by simp
        have "length A1 < length A" using A by simp
        from less.hyps [OF this] less.prems 1 2 show ?thesis by simp
      qed
    qed
  qed
qed

lemma computeItemAngles_entries:
  assumes "computeItemAngles items p = Some r"
  shows "length r = length items" "list_all inRange r"
proof -
  show "length r = length items"
  proof (cases "items = []")
    case True
    with assms show ?thesis by (simp add: computeItemAngles_def)
  next
    case False
    from computeItemAngles_returns [OF this, of p] assms wedgesInv_final(1)
    show ?thesis by auto
  qed
  show "list_all inRange r"
  proof (cases "items = []")
    case True
    with assms show ?thesis by (simp add: computeItemAngles_def)
  next
    case False
    from computeItemAngles_returns [OF this, of p] assms wedgesInv_final(2)
    show ?thesis by auto
  qed
qed

lemma computeItemAngles_anchors:
  assumes "fixedAnglesOf items p \<noteq> []"
  shows "computeItemAngles items p =
         map_option snd (wedgesLoop (length items) (fixedAnglesOf items p) 0 (p, []))"
proof -
  from assms have "items \<noteq> []"
    by (auto simp: fixedAnglesOf_def normalize_nudge)
  with assms show ?thesis by (simp add: computeItemAngles_def Let_def)
qed

lemma fixedAnglesOf_splice_None:
  assumes "d \<le> length items"
  shows "fixedAnglesOf (splice_insert items d None) p =
         pruneFixed (map (canon p) (collectFixed 0 (take d items)) @
                     map (canon p) (collectFixed (Suc d) (drop d items)))"
  using assms
  by (simp add: fixedAnglesOf_def normalize_nudge splice_insert_def collectFixed_append min_def)

lemma fixedAnglesOf_splice_Some:
  assumes "d \<le> length items" "0 \<le> x"
  shows "fixedAnglesOf (splice_insert items d (Some x)) p =
         pruneFixed (map (canon p) (collectFixed 0 (take d items)) @
                     canon p \<lparr>angle = x, index = d\<rparr> #
                     map (canon p) (collectFixed (Suc d) (drop d items)))"
  using assms
  by (simp add: fixedAnglesOf_def normalize_nudge splice_insert_def collectFixed_append min_def)

lemma canon_id:
  assumes "0 \<le> x" "x < 360" "case p of None \<Rightarrow> True | Some q \<Rightarrow> \<bar>x - q\<bar> \<ge> 0.0001"
  shows "canon p \<lparr>angle = x, index = d\<rparr> = \<lparr>angle = x, index = d\<rparr>"
  using assms by (auto simp: canon_def js_rem_id split: option.splits)

text \<open>
  C7 (as amended). When \<open>computeItemAnglesDnD\<close> reports a drop angle for a drop index
  within the list, and that angle is at least 0.0001 degrees away from the parent angle
  (or there is no parent angle), then an item inserted at the drop index with the drop
  angle as its fixed angle gets that angle from \<open>computeItemAngles\<close>. Either the inserted
  anchor survives the pruning and keeps its angle, or it is pruned, and then the list of
  anchors is the one of the run with the placeholder, which gave the drop angle.
\<close>

theorem computeItemAnglesDnD_roundtrip:
  assumes d: "d \<le> length items"
    and dnd: "computeItemAnglesDnD items parentAngle (Some d) = Some res"
    and x: "dropAngle res = Some x"
    and far: "case parentAngle of None \<Rightarrow> True | Some q \<Rightarrow> \<bar>x - q\<bar> \<ge> 0.0001"
  shows "\<exists>r. computeItemAngles (splice_insert items d (Some x)) parentAngle = Some r \<and>
             r ! d = Some x"
proof -
  let ?items1 = "splice_insert items d None"
  let ?items2 = "splice_insert items d (Some x)"
  let ?A = "map (canon parentAngle) (collectFixed 0 (take d items))"
  let ?B = "map (canon parentAngle) (collectFixed (Suc d) (drop d items))"
  let ?y = "\<lparr>angle = x, index = d\<rparr>"
  from dnd x obtain r1 where r1: "computeItemAngles ?items1 parentAngle = Some r1"
    and g: "js_get r1 d = Some x"
    by (auto simp: computeItemAnglesDnD_def split: option.splits)
  have len: "length ?items1 = Suc (length items)" "length ?items2 = Suc (length items)"
    by (simp_all add: splice_insert_def)
  from g have dl: "d < length r1" and r1d: "r1 ! d = Some x"
    by (simp_all add: js_get_def split: if_splits)
  from computeItemAngles_entries(2) [OF r1] dl r1d have xr: "0 \<le> x" "x < 360"
    by (auto simp: list_all_length inRange_def split: option.splits)
  have F1: "fixedAnglesOf ?items1 parentAngle = pruneFixed (?A @ ?B)"
    using d by (rule fixedAnglesOf_splice_None)
  have F2: "fixedAnglesOf ?items2 parentAngle = pruneFixed (?A @ ?y # ?B)"
    using fixedAnglesOf_splice_Some [OF d xr(1)] canon_id [OF xr far] by simp
  show ?thesis
  proof (cases "?y \<in> set (pruneFixed (?A @ ?y # ?B))")
    case True
    then have "d \<in> index ` set (fixedAnglesOf ?items2 parentAngle)"
      unfolding F2 by force
    moreover have "d < length ?items2" "?items2 ! d = Some x"
      using d by (simp_all add: splice_insert_def nth_append)
    ultimately show ?thesis
      using computeItemAngles_anchor_kept [of d ?items2 x parentAngle] xr far by simp
  next
    case False
    from pruneFixed_drop [OF this] F1 F2
    have eq: "fixedAnglesOf ?items2 parentAngle = fixedAnglesOf ?items1 parentAngle" by simp
    have ne: "fixedAnglesOf ?items2 parentAngle \<noteq> []"
      unfolding F2 by (simp add: pruneFixed_Nil)
    have "computeItemAngles ?items2 parentAngle = computeItemAngles ?items1 parentAngle"
      using computeItemAngles_anchors [OF ne] computeItemAngles_anchors [of ?items1 parentAngle]
        ne eq len by simp
    with r1 r1d show ?thesis by simp
  qed
qed

theorem computeItemAnglesDnD_roundtrip_witness:
  "\<exists>r. computeItemAngles (splice_insert [Some 300, None] 2 (Some 210)) (Some 90) = Some r \<and>
       r ! 2 = Some 210"
proof -
  have "computeItemAnglesDnD [Some 300, None] (Some 90) (Some 2)
          = Some \<lparr>itemAngles = [Some 300, Some 30], dropAngle = Some 210\<rparr>"
    by code_simp
  from computeItemAnglesDnD_roundtrip [OF _ this, of 210] show ?thesis by simp
qed

section \<open>Separators and drop zones\<close>

text \<open>
  With a single item, the test of \<open>computeDropIndex\<close> agrees with the angular distance
  as long as the pointer angle is not below the item angle.
\<close>

lemma computeDropIndex_single_not_below:
  assumes "a \<le> p" and "p < a + 360"
  shows "computeDropIndex [a] p = Some (if angularDistance p a < 90 then 0 else 1)"
  using assms by (auto simp: computeDropIndex_def angularDistance_def)



















section \<open>The wedges of computeItemWedges\<close>


































end
